theory Spec2Isabelle
  imports Complex_Main "HOL-Library.Sublist"
begin

section \<open>Text\<close>

text \<open>
  Python strings are modelled as \<open>string\<close>; the model covers ASCII text. The character
  classes are those of Python on ASCII: \<open>str.isspace\<close> and the pattern \<open>\s\<close> accept the codes
  9 to 13, 28 to 31 and 32; the pattern \<open>\w\<close> accepts letters, digits and the underscore.
\<close>

definition is_upper :: "char \<Rightarrow> bool" where
  "is_upper c = (let n = (of_char c :: nat) in 65 \<le> n \<and> n \<le> 90)"

definition is_lower :: "char \<Rightarrow> bool" where
  "is_lower c = (let n = (of_char c :: nat) in 97 \<le> n \<and> n \<le> 122)"

definition is_digit :: "char \<Rightarrow> bool" where
  "is_digit c = (let n = (of_char c :: nat) in 48 \<le> n \<and> n \<le> 57)"

definition is_word :: "char \<Rightarrow> bool" where
  "is_word c = (is_upper c \<or> is_lower c \<or> is_digit c \<or> c = CHR ''_'')"

definition is_space :: "char \<Rightarrow> bool" where
  "is_space c = (let n = (of_char c :: nat) in (9 \<le> n \<and> n \<le> 13) \<or> (28 \<le> n \<and> n \<le> 32))"

definition to_lower :: "char \<Rightarrow> char" where
  "to_lower c = (if is_upper c then char_of ((of_char c :: nat) + 32) else c)"

text \<open>\<open>s.lower()\<close>\<close>

definition lower :: "string \<Rightarrow> string" where
  "lower s = map to_lower s"

definition dq :: char where
  "dq = CHR 0x22"

text \<open>\<open>s.strip('"')\<close>: the quote markers are removed from both ends.\<close>

definition strip_quotes :: "string \<Rightarrow> string" where
  "strip_quotes s = rev (dropWhile (\<lambda>c. c = dq) (rev (dropWhile (\<lambda>c. c = dq) s)))"

text \<open>\<open>s.split()\<close>: the maximal runs of characters that are not white space.\<close>

fun split_acc :: "string \<Rightarrow> string \<Rightarrow> string list" where
  "split_acc w [] = (if w = [] then [] else [w])"
| "split_acc w (c # cs) =
     (if is_space c then (if w = [] then split_acc [] cs else w # split_acc [] cs)
      else split_acc (w @ [c]) cs)"

definition split :: "string \<Rightarrow> string list" where
  "split s = split_acc [] s"

text \<open>\<open>' '.join(xs)\<close>\<close>

fun join :: "string list \<Rightarrow> string" where
  "join [] = []"
| "join [x] = x"
| "join (x # y # ys) = x @ CHR '' '' # join (y # ys)"

text \<open>\<open>p in s\<close> on strings: \<open>p\<close> occurs in \<open>s\<close> as a contiguous piece.\<close>

fun contains :: "string \<Rightarrow> string \<Rightarrow> bool" where
  "contains [] p = (p = [])"
| "contains (c # cs) p = (prefix p (c # cs) \<or> contains cs p)"

text \<open>\<open>xs[:n]\<close>: a negative bound counts from the end.\<close>

definition slice_to :: "'a list \<Rightarrow> int \<Rightarrow> 'a list" where
  "slice_to xs n = (if 0 \<le> n then take (nat n) xs else take (length xs - nat (- n)) xs)"

text \<open>The decimal text of a count, as an f-string prints it.\<close>

fun str_nat :: "nat \<Rightarrow> string" where
  "str_nat n = (if n < 10 then [char_of (48 + n)] else str_nat (n div 10) @ [char_of (48 + n mod 10)])"

declare str_nat.simps [simp del]

section \<open>Data model\<close>

text \<open>
  A \<open>datetime\<close> is the number of microseconds of its wall-clock fields since
  0001-01-01 00:00:00, with an optional UTC offset attached. Python keeps every datetime
  between 0001-01-01 00:00:00 and 9999-12-31 23:59:59.999999 and raises
  \<open>OverflowError\<close> when arithmetic leaves that range or when a \<open>timedelta\<close> is asked for
  more than 999999999 days.
\<close>

datatype error = OverflowError | RequestError string

record datetime =
  micros :: int
  tzinfo :: "int option"

definition day_us :: int where
  "day_us = 86400000000"

definition dt_max :: int where
  "dt_max = 3652059 * 86400000000 - 1"

text \<open>\<open>timedelta(days=n)\<close>, in microseconds.\<close>

definition timedelta_days :: "int \<Rightarrow> error + int" where
  "timedelta_days n = (if 999999999 < \<bar>n\<bar> then Inl OverflowError else Inr (n * day_us))"

text \<open>\<open>d + delta\<close> for a delta in microseconds.\<close>

definition dt_add :: "datetime \<Rightarrow> int \<Rightarrow> error + datetime" where
  "dt_add d delta =
     (let m = micros d + delta
      in if m < 0 \<or> dt_max < m then Inl OverflowError else Inr (d\<lparr>micros := m\<rparr>))"

text \<open>\<open>d + timedelta(days=n)\<close> and \<open>d - timedelta(days=n)\<close>\<close>

definition dt_plus_days :: "datetime \<Rightarrow> int \<Rightarrow> error + datetime" where
  "dt_plus_days d n = (case timedelta_days n of Inl e \<Rightarrow> Inl e | Inr delta \<Rightarrow> dt_add d delta)"

definition dt_minus_days :: "datetime \<Rightarrow> int \<Rightarrow> error + datetime" where
  "dt_minus_days d n = (case timedelta_days n of Inl e \<Rightarrow> Inl e | Inr delta \<Rightarrow> dt_add d (- delta))"

text \<open>\<open>(a - b).days\<close> for naive datetimes: whole days, rounded down.\<close>

definition days_between :: "datetime \<Rightarrow> datetime \<Rightarrow> int" where
  "days_between a b = (micros a - micros b) div day_us"

text \<open>\<open>max(a, b)\<close> and \<open>min(a, b)\<close> on naive datetimes: the first argument wins a tie.\<close>

definition dt_max2 :: "datetime \<Rightarrow> datetime \<Rightarrow> datetime" where
  "dt_max2 a b = (if micros a < micros b then b else a)"

definition dt_min2 :: "datetime \<Rightarrow> datetime \<Rightarrow> datetime" where
  "dt_min2 a b = (if micros b < micros a then b else a)"

record event =
  event_id :: string
  slug :: string
  title :: string
  description :: string
  start_date :: "datetime option"
  end_date :: "datetime option"
  category :: "string option"
  tags :: "string list"
  active :: bool
  closed :: bool
  volume :: real

record article =
  source_id :: "string option"
  source_name :: "string option"
  author :: "string option"
  title :: "string option"
  description :: "string option"
  url :: string
  image_url :: "string option"
  published_at :: "datetime option"
  content :: "string option"

record scored_article =
  article :: article
  score :: real
  match_reasons :: "string list"

section \<open>Term extraction\<close>

definition STOP_WORDS :: "string list" where
  "STOP_WORDS =
    [''the'', ''a'', ''an'', ''in'', ''on'', ''at'', ''to'', ''for'', ''of'', ''and'', ''or'', ''is'',
     ''are'', ''was'', ''were'', ''be'', ''been'', ''being'', ''will'', ''would'', ''could'',
     ''should'', ''may'', ''might'', ''can'', ''this'', ''that'', ''these'', ''those'', ''it'',
     ''its'', ''by'', ''from'', ''with'', ''as'', ''but'', ''if'', ''then'', ''than'', ''so'',
     ''what'', ''which'', ''who'', ''whom'', ''when'', ''where'', ''why'', ''how'', ''all'',
     ''each'', ''every'', ''both'', ''few'', ''more'', ''most'', ''other'', ''some'', ''such'',
     ''no'', ''not'', ''only'', ''own'', ''same'', ''too'', ''very'', ''just'', ''before'',
     ''after'', ''during'', ''while'', ''market'', ''resolve'', ''yes'', ''no'']"

definition GENERIC_TAGS :: "string list" where
  "GENERIC_TAGS =
    [''business'', ''politics'', ''news'', ''world'', ''us'', ''usa'', ''america'',
     ''global'', ''international'', ''economy'', ''economic'', ''predictions'',
     ''2024'', ''2025'', ''2026'']"

text \<open>\<open>re.sub(r'[^\w\s]', ' ', text)\<close>\<close>

definition blank_punct :: "string \<Rightarrow> string" where
  "blank_punct s = map (\<lambda>c. if is_word c \<or> is_space c then c else CHR '' '') s"

definition extract_key_terms :: "string \<Rightarrow> string list" where
  "extract_key_terms text =
     (let text = lower text;
          text = blank_punct text;
          words = split text
      in filter (\<lambda>w. w \<notin> set STOP_WORDS \<and> 2 < length w) words)"

section \<open>Named entities\<close>

text \<open>
  \<open>re.findall(r'\b[A-Z][a-z]+(?:\s+[A-Z][a-z]+)*\b', title)\<close>. A capitalised word is an
  upper-case letter and the whole run of lower-case letters after it, which must be
  non-empty and end at a word boundary: when a word character follows the run, no shorter
  run ends at a boundary either, so the word does not match. A match is one capitalised
  word and then, as often as possible, white space and another capitalised word; a
  repetition whose word does not match is given up and the match ends before its white
  space. A match starts only after a character that is not a word character (or at the
  start of the text), and the search goes on where the last match ended.
\<close>

fun cap_word :: "string \<Rightarrow> (string \<times> string) option" where
  "cap_word [] = None"
| "cap_word (c # cs) =
     (if is_upper c \<and> takeWhile is_lower cs \<noteq> [] \<and>
         (case dropWhile is_lower cs of [] \<Rightarrow> True | d # _ \<Rightarrow> \<not> is_word d)
      then Some (c # takeWhile is_lower cs, dropWhile is_lower cs)
      else None)"

lemma cap_word_shorter: "cap_word s = Some (w, r) \<Longrightarrow> length r < length s"
  by (cases s) (auto split: if_splits intro: le_imp_less_Suc length_dropWhile_le)

function more_words :: "string \<Rightarrow> string \<times> string" where
  "more_words s =
     (if takeWhile is_space s = [] then ([], s)
      else (case cap_word (dropWhile is_space s) of
              None \<Rightarrow> ([], s)
            | Some (w, r) \<Rightarrow>
                (case more_words r of (m, r') \<Rightarrow> (takeWhile is_space s @ w @ m, r'))))"
  by pat_completeness auto
termination
proof (relation "measure length")
  show "wf (measure length)" by simp
next
  fix s :: string and x2 w r
  assume "cap_word (dropWhile is_space s) = Some x2" and "(w, r) = x2"
  then have "cap_word (dropWhile is_space s) = Some (w, r)" by simp
  then have "length r < length (dropWhile is_space s)"
    by (rule cap_word_shorter)
  also have "\<dots> \<le> length s"
    by (rule length_dropWhile_le)
  finally show "(r, s) \<in> measure length" by simp
qed

declare more_words.simps [simp del]

lemma more_words_shorter: "more_words s = (m, r) \<Longrightarrow> length r \<le> length s"
proof (induction s arbitrary: m r rule: more_words.induct)
  case (1 s)
  show ?case
  proof (cases "takeWhile is_space s = []")
    case True
    with "1.prems" show ?thesis by (simp add: more_words.simps [of s])
  next
    case False
    show ?thesis
    proof (cases "cap_word (dropWhile is_space s)")
      case None
      with False "1.prems" show ?thesis by (simp add: more_words.simps [of s])
    next
      case (Some p)
      obtain w r0 where p: "p = (w, r0)" by (cases p)
      obtain m0 r1 where mw: "more_words r0 = (m0, r1)" by (cases "more_words r0")
      from False Some p mw "1.prems" have r: "r = r1"
        by (simp add: more_words.simps [of s])
      have "length r1 \<le> length r0"
        using "1.IH" [OF False Some p [symmetric] mw] .
      also have "length r0 < length (dropWhile is_space s)"
        using Some p by (simp add: cap_word_shorter)
      also have "\<dots> \<le> length s" by (rule length_dropWhile_le)
      finally show ?thesis using r by simp
    qed
  qed
qed

text \<open>
  The first argument says whether the character before the current position is a word
  character, in which case no match can start here.
\<close>

function findall_entities :: "bool \<Rightarrow> string \<Rightarrow> string list" where
  "findall_entities pw [] = []"
| "findall_entities pw (c # cs) =
     (if pw then findall_entities (is_word c) cs
      else (case cap_word (c # cs) of
              None \<Rightarrow> findall_entities (is_word c) cs
            | Some (w, r) \<Rightarrow>
                (case more_words r of (m, r') \<Rightarrow> (w @ m) # findall_entities True r')))"
  by pat_completeness auto
termination
proof (relation "measure (\<lambda>(pw, s). length s)", goal_cases)
  case 1
  show ?case by simp
next
  case (2 pw c cs)
  show ?case by simp
next
  case (3 pw c cs)
  show ?case by simp
next
  case (4 pw c cs x2 w r m r')
  then have "cap_word (c # cs) = Some (w, r)" and "more_words r = (m, r')"
    by simp_all
  then have "length r < length (c # cs)" and "length r' \<le> length r"
    using cap_word_shorter [of "c # cs" w r] more_words_shorter [of r m r'] by auto
  then show ?case by simp
qed

declare findall_entities.simps [simp del]

definition named_entities :: "string \<Rightarrow> string list" where
  "named_entities t = findall_entities False t"

section \<open>Query builder\<close>

definition quoted :: "string \<Rightarrow> string" where
  "quoted e = dq # e @ [dq]"

text \<open>The loop over \<open>event.tags\<close>; the length test follows an append.\<close>

fun add_tags :: "int \<Rightarrow> string list \<Rightarrow> string list \<Rightarrow> string list" where
  "add_tags max_terms [] terms = terms"
| "add_tags max_terms (tag # rest) terms =
     (if lower tag \<notin> set GENERIC_TAGS \<and> lower tag \<notin> set (map lower terms)
      then (if max_terms \<le> int (length (terms @ [tag])) then terms @ [tag]
            else add_tags max_terms rest (terms @ [tag]))
      else add_tags max_terms rest terms)"

text \<open>The loop over the named entities; the length test follows an insertion.\<close>

fun add_entities :: "int \<Rightarrow> string list \<Rightarrow> string list \<Rightarrow> string list" where
  "add_entities max_terms [] terms = terms"
| "add_entities max_terms (entity # rest) terms =
     (if lower entity \<notin> set STOP_WORDS \<and> entity \<notin> set terms
      then (if max_terms \<le> int (length (quoted entity # terms)) then quoted entity # terms
            else add_entities max_terms rest (quoted entity # terms))
      else add_entities max_terms rest terms)"

text \<open>The term list after the tags have been added, and the list the query is joined from.\<close>

definition tag_terms :: "event \<Rightarrow> int \<Rightarrow> string list" where
  "tag_terms ev max_terms =
     add_tags max_terms (tags ev) (take 5 (extract_key_terms (event.title ev)))"

definition build_news_terms :: "event \<Rightarrow> int \<Rightarrow> string list" where
  "build_news_terms ev max_terms =
     slice_to (add_entities max_terms (named_entities (event.title ev)) (tag_terms ev max_terms))
       max_terms"

definition build_news_query :: "event \<Rightarrow> int \<Rightarrow> string" where
  "build_news_query ev max_terms = join (build_news_terms ev max_terms)"

section \<open>Time window\<close>

definition to_naive :: "datetime \<Rightarrow> datetime" where
  "to_naive dt = (if tzinfo dt \<noteq> None then dt\<lparr>tzinfo := None\<rparr> else dt)"

text \<open>The clock reading \<open>datetime.now()\<close> is the first argument.\<close>

definition window_end :: "datetime \<Rightarrow> event \<Rightarrow> error + datetime" where
  "window_end now ev =
     (case end_date ev of
        Some e \<Rightarrow>
          (if micros now < micros (to_naive e)
           then (case dt_plus_days now 1 of
                   Inl x \<Rightarrow> Inl x
                 | Inr cap \<Rightarrow> Inr (dt_min2 (to_naive e) cap))
           else Inr now)
      | None \<Rightarrow> Inr now)"

definition window_start :: "datetime \<Rightarrow> event \<Rightarrow> int \<Rightarrow> int \<Rightarrow> error + datetime" where
  "window_start now ev default_days_back buffer_days =
     (case start_date ev of
        Some s \<Rightarrow>
          (case dt_minus_days (to_naive s) buffer_days of
             Inl x \<Rightarrow> Inl x
           | Inr from_date \<Rightarrow>
               (case dt_minus_days now 30 of
                  Inl x \<Rightarrow> Inl x
                | Inr min_date \<Rightarrow> Inr (dt_max2 from_date min_date)))
      | None \<Rightarrow> dt_minus_days now default_days_back)"

definition get_time_window :: "datetime \<Rightarrow> event \<Rightarrow> int \<Rightarrow> int \<Rightarrow> error + (datetime \<times> datetime)" where
  "get_time_window now ev default_days_back buffer_days =
     (case window_end now ev of
        Inl x \<Rightarrow> Inl x
      | Inr to_date \<Rightarrow>
          (case window_start now ev default_days_back buffer_days of
             Inl x \<Rightarrow> Inl x
           | Inr from_date \<Rightarrow> Inr (from_date, to_date)))"

section \<open>Relevance scorer\<close>

text \<open>
  The score is a float that only ever holds a sum of small whole numbers, which binary
  floating point represents exactly; it is modelled as a real number. Each rule takes the
  running score and reason list and returns them updated.
\<close>

type_synonym tally = "real \<times> string list"

definition clean_term :: "string \<Rightarrow> string" where
  "clean_term t = lower (strip_quotes t)"

fun count_matches :: "string list \<Rightarrow> string \<Rightarrow> nat" where
  "count_matches [] text = 0"
| "count_matches (t # rest) text =
     (if contains text (clean_term t) then Suc (count_matches rest text)
      else count_matches rest text)"

definition title_rule :: "string list \<Rightarrow> string \<Rightarrow> tally \<Rightarrow> tally" where
  "title_rule query_terms article_title acc =
     (let title_matches = count_matches query_terms article_title
      in if 0 < title_matches
         then (fst acc + real (title_matches * 3),
               snd acc @ [''title_match:'' @ str_nat title_matches])
         else acc)"

definition desc_rule :: "string list \<Rightarrow> string \<Rightarrow> tally \<Rightarrow> tally" where
  "desc_rule query_terms article_desc acc =
     (let desc_matches = count_matches query_terms article_desc
      in if 0 < desc_matches
         then (fst acc + real (desc_matches * 1),
               snd acc @ [''desc_match:'' @ str_nat desc_matches])
         else acc)"

fun entity_rule :: "string list \<Rightarrow> string \<Rightarrow> tally \<Rightarrow> tally" where
  "entity_rule [] article_title acc = acc"
| "entity_rule (entity # rest) article_title acc =
     (if contains article_title (lower entity)
      then entity_rule rest article_title (fst acc + 5, snd acc @ [''entity:'' @ entity])
      else entity_rule rest article_title acc)"

definition recency_rule :: "datetime \<Rightarrow> article \<Rightarrow> tally \<Rightarrow> tally" where
  "recency_rule now a acc =
     (case published_at a of
        None \<Rightarrow> acc
      | Some p \<Rightarrow>
          (let days_old = days_between now (to_naive p)
           in if days_old \<le> 1 then (fst acc + 2, snd acc @ [''very_recent''])
              else if days_old \<le> 3 then (fst acc + 1, snd acc @ [''recent''])
              else acc))"

definition quality_sources :: "string list" where
  "quality_sources =
    [''reuters'', ''bloomberg'', ''associated press'', ''bbc'', ''cnn'',
     ''wall street journal'', ''new york times'', ''washington post'',
     ''financial times'', ''the economist'', ''politico'', ''axios'']"

definition text_or_empty :: "string option \<Rightarrow> string" where
  "text_or_empty x = (case x of None \<Rightarrow> [] | Some s \<Rightarrow> s)"

definition quality_rule :: "article \<Rightarrow> tally \<Rightarrow> tally" where
  "quality_rule a acc =
     (let source_lower = lower (text_or_empty (source_name a))
      in if list_ex (\<lambda>qs. contains source_lower qs) quality_sources
         then (fst acc + 1, snd acc @ [''quality_source''])
         else acc)"

definition tally_article :: "datetime \<Rightarrow> article \<Rightarrow> event \<Rightarrow> string list \<Rightarrow> tally" where
  "tally_article now a ev query_terms =
     (let article_title = lower (text_or_empty (article.title a));
          article_desc = lower (text_or_empty (article.description a));
          acc = (0, []);
          acc = title_rule query_terms article_title acc;
          acc = desc_rule query_terms article_desc acc;
          acc = entity_rule (named_entities (event.title ev)) article_title acc;
          acc = recency_rule now a acc;
          acc = quality_rule a acc
      in acc)"

definition score_article :: "datetime \<Rightarrow> article \<Rightarrow> event \<Rightarrow> string list \<Rightarrow> scored_article" where
  "score_article now a ev query_terms =
     (let acc = tally_article now a ev query_terms
      in \<lparr>article = a, score = fst acc, match_reasons = snd acc\<rparr>)"

section \<open>Matching orchestrator\<close>

text \<open>
  The News Client is a parameter: what \<open>search_everything\<close> answers to the query, the
  time window, the sort order and the page size, either an error it raises or the
  articles with the total count. The clock is read once for the time window and once
  more for each article that is scored: \<open>now_at i\<close> is the reading for the article at
  position \<open>i\<close> of the fetched list.
\<close>

type_synonym news_client =
  "string \<Rightarrow> datetime \<Rightarrow> datetime \<Rightarrow> string \<Rightarrow> int \<Rightarrow> error + (article list \<times> int)"

definition score_all :: "(nat \<Rightarrow> datetime) \<Rightarrow> event \<Rightarrow> string list \<Rightarrow> article list \<Rightarrow> scored_article list" where
  "score_all now_at ev query_terms articles =
     map (\<lambda>(i, a). score_article (now_at i) a ev query_terms) (enumerate 0 articles)"

text \<open>\<open>scored.sort(key=lambda x: x.score, reverse=True)\<close>: a stable sort, largest first.\<close>

definition sort_by_score :: "scored_article list \<Rightarrow> scored_article list" where
  "sort_by_score scored = sort_key (\<lambda>x. - score x) scored"

definition rank :: "scored_article list \<Rightarrow> int \<Rightarrow> real \<Rightarrow> scored_article list" where
  "rank scored max_articles min_score =
     slice_to (sort_by_score (filter (\<lambda>s. min_score \<le> score s) scored)) max_articles"

definition match_news_to_event ::
  "datetime \<Rightarrow> (nat \<Rightarrow> datetime) \<Rightarrow> news_client \<Rightarrow> event \<Rightarrow> int \<Rightarrow> real
     \<Rightarrow> error + scored_article list" where
  "match_news_to_event now now_at search_everything ev max_articles min_score =
     (let query = build_news_query ev 8;
          query_terms = split query
      in case get_time_window now ev 7 2 of
           Inl x \<Rightarrow> Inl x
         | Inr (from_date, to_date) \<Rightarrow>
             (case search_everything query from_date to_date ''relevancy'' 20 of
                Inl x \<Rightarrow> Inr []
              | Inr (articles, n_total) \<Rightarrow>
                  Inr (rank (score_all now_at ev query_terms articles) max_articles min_score)))"

text \<open>The invariant of the scorer: a tally is never negative, and it is zero exactly when no reason has been recorded.\<close>

definition sound_tally :: "tally \<Rightarrow> bool" where
  "sound_tally acc = (0 \<le> fst acc \<and> ((fst acc = 0) = (snd acc = [])))"

text \<open>The entries of the query term list that the title or description rule counts for a text.\<close>

definition matching_terms :: "string list \<Rightarrow> string \<Rightarrow> string list" where
  "matching_terms query_terms text = filter (\<lambda>t. contains text (clean_term t)) query_terms"

text \<open>What the description, entity, recency and source rules add on their own.\<close>

definition other_rules :: "datetime \<Rightarrow> article \<Rightarrow> event \<Rightarrow> string list \<Rightarrow> tally" where
  "other_rules now a ev query_terms =
     quality_rule a (recency_rule now a
       (entity_rule (named_entities (event.title ev)) (lower (text_or_empty (article.title a)))
          (desc_rule query_terms (lower (text_or_empty (article.description a))) (0, []))))"

text \<open>A capitalised word: an upper-case letter followed by one or more lower-case letters.\<close>

definition capitalized :: "string \<Rightarrow> bool" where
  "capitalized w = (case w of [] \<Rightarrow> False | c # cs \<Rightarrow> is_upper c \<and> cs \<noteq> [] \<and> list_all is_lower cs)"

text \<open>
  The entity detection in the words of the specification, maximal runs of consecutive
  capitalised words: the title is cut into words, the maximal runs of word characters,
  and the separators between them; a run starts at a capitalised word and takes in each
  following capitalised word that only white space separates from the one before it.
\<close>

definition spaces :: "string \<Rightarrow> bool" where
  "spaces g = (g \<noteq> [] \<and> list_all is_space g)"

fun chop :: "string \<Rightarrow> string list" where
  "chop [] = []"
| "chop (c # cs) =
     (case chop cs of
        [] \<Rightarrow> [[c]]
      | tok # toks \<Rightarrow>
          (if is_word c = is_word (hd tok) then (c # tok) # toks else [c] # tok # toks))"

fun extend_run :: "string list \<Rightarrow> string \<times> string list" where
  "extend_run [] = ([], [])"
| "extend_run [g] = ([], [g])"
| "extend_run (g # w # toks) =
     (if spaces g \<and> capitalized w
      then (case extend_run toks of (m, rest) \<Rightarrow> (g @ w @ m, rest))
      else ([], g # w # toks))"

lemma extend_run_shorter: "extend_run toks = (m, rest) \<Longrightarrow> length rest \<le> length toks"
proof (induction toks arbitrary: m rest rule: extend_run.induct)
  case (3 g w toks)
  show ?case
  proof (cases "spaces g \<and> capitalized w")
    case True
    obtain m0 r0 where e: "extend_run toks = (m0, r0)" by (cases "extend_run toks")
    with True "3.prems" have "rest = r0" by simp
    with "3.IH" [OF True e] show ?thesis by simp
  next
    case False
    with "3.prems" show ?thesis by auto
  qed
qed simp_all

function runs_from :: "string list \<Rightarrow> string list" where
  "runs_from [] = []"
| "runs_from (tok # toks) =
     (if capitalized tok
      then (case extend_run toks of (m, rest) \<Rightarrow> (tok @ m) # runs_from rest)
      else runs_from toks)"
  by pat_completeness auto
termination
proof (relation "measure length", goal_cases)
  case 1
  show ?case by simp
next
  case (2 tok toks m rest)
  then have "extend_run toks = (m, rest)" by simp
  then have "length rest \<le> length toks" by (rule extend_run_shorter)
  then show ?case by simp
next
  case (3 tok toks)
  show ?case by simp
qed

definition capitalized_runs :: "string \<Rightarrow> string list" where
  "capitalized_runs t = runs_from (chop t)"

text \<open>
  Tokens that alternate between words and separators, starting with a word when the flag
  is set; and a text that starts with no word character.
\<close>

fun alt :: "bool \<Rightarrow> string list \<Rightarrow> bool" where
  "alt b [] = True"
| "alt b (tok # toks) = (tok \<noteq> [] \<and> list_all (\<lambda>c. is_word c = b) tok \<and> alt (\<not> b) toks)"

definition ends_word :: "string \<Rightarrow> bool" where
  "ends_word s = (case s of [] \<Rightarrow> True | d # _ \<Rightarrow> \<not> is_word d)"

text \<open>
  The detected entities that pass the two tests of the entity loop against the term list
  of the tag step, and the number of insertions the loop makes at most: the length test
  comes after an insertion, so there is always room for one.
\<close>

definition eligible_entities :: "event \<Rightarrow> int \<Rightarrow> string list" where
  "eligible_entities ev max_terms =
     filter (\<lambda>e. lower e \<notin> set STOP_WORDS \<and> e \<notin> set (tag_terms ev max_terms))
       (named_entities (event.title ev))"

definition entity_budget :: "event \<Rightarrow> int \<Rightarrow> nat" where
  "entity_budget ev max_terms = max 1 (nat (max_terms - int (length (tag_terms ev max_terms))))"

section \<open>Sample inputs\<close>

definition sample_event :: event where
  "sample_event = \<lparr>event_id = ''1'', slug = ''s'', event.title = ''Trump wins'',
     event.description = [], start_date = None, end_date = None,
     category = None, tags = [], active = True, closed = False, volume = 0\<rparr>"

definition sample_article :: article where
  "sample_article = \<lparr>source_id = None, source_name = Some ''BBC News'', author = None,
     article.title = Some ''Trump wins again'', article.description = None,
     url = [], image_url = None, published_at = None, content = None\<rparr>"

text \<open>The clock reading of the samples is 2026-01-01 00:00:00.\<close>

definition sample_now :: datetime where
  "sample_now = \<lparr>micros = 739616 * 86400000000, tzinfo = None\<rparr>"

definition sample_client :: news_client where
  "sample_client q f t s n =
     Inr ([sample_article,
           sample_article\<lparr>article.title := Some ''Weather'', source_name := None\<rparr>], 2)"

definition failing_client :: news_client where
  "failing_client q f t s n = Inl (RequestError ''News API error'')"

definition plain_article :: article where
  "plain_article = \<lparr>source_id = None, source_name = None, author = None,
     article.title = None, article.description = None,
     url = [], image_url = None, published_at = None, content = None\<rparr>"

definition stamp :: "int \<Rightarrow> datetime" where
  "stamp hours_ago =
     \<lparr>micros = 739616 * 86400000000 - hours_ago * 3600000000, tzinfo = Some 0\<rparr>"

definition early_event :: event where
  "early_event = sample_event\<lparr>start_date := Some \<lparr>micros = 86400000000, tzinfo = Some 0\<rparr>\<rparr>"

definition old_event :: event where
  "old_event =
     sample_event\<lparr>start_date := Some \<lparr>micros = 739576 * 86400000000, tzinfo = Some 0\<rparr>\<rparr>"

definition musk_event :: event where
  "musk_event = sample_event\<lparr>event.title := ''Elon Musk buys Twitter''\<rparr>"

definition full_event :: event where
  "full_event = sample_event\<lparr>event.title := ''Elon Musk buys Twitter stock today'',
     tags := [''Tech'', ''Crypto'', ''Finance'']\<rparr>"


definition crowded_event :: event where
  "crowded_event = sample_event\<lparr>event.title := ''Apple, Google, Amazon, Tesla, Nvidia''\<rparr>"

section \<open>Properties of the orchestrator\<close>

lemma set_slice_to: "set (slice_to xs n) \<subseteq> set xs"
  by (simp add: slice_to_def set_take_subset)

lemma prefix_slice_to: "prefix (slice_to xs n) xs"
  by (simp add: slice_to_def take_is_prefix)

lemma rank_min_score: "s \<in> set (rank scored max_articles min_score) \<Longrightarrow> min_score \<le> score s"
  using set_slice_to [of "sort_by_score (filter (\<lambda>s. min_score \<le> score s) scored)" max_articles]
  by (auto simp: rank_def sort_by_score_def)

lemma match_news_cases:
  assumes "match_news_to_event now now_at search ev max_articles min_score = Inr result"
  shows "result = [] \<or> (\<exists>articles. result =
           rank (score_all now_at ev (split (build_news_query ev 8)) articles) max_articles min_score)"
  using assms
  by (auto simp: match_news_to_event_def Let_def split: sum.splits prod.splits)

text \<open>
  Claim C1. Whatever the event, the clock readings and the answer of the News Client,
  every scored article in a sequence that \<open>match_news_to_event\<close> returns has a score of
  at least \<open>min_score\<close>.
\<close>

theorem match_news_min_score:
  assumes "match_news_to_event now now_at search ev max_articles min_score = Inr result"
    and "s \<in> set result"
  shows "min_score \<le> score s"
  using match_news_cases [OF assms(1)] assms(2) rank_min_score by auto

theorem match_news_min_score_witness:
  "match_news_to_event sample_now (\<lambda>i. sample_now) sample_client sample_event 5 2
     = Inr [score_article sample_now sample_article sample_event
              [quoted ''Trump'', ''trump'', ''wins'']]
   \<and> (2::real) \<le> score (score_article sample_now sample_article sample_event
                          [quoted ''Trump'', ''trump'', ''wins''])"
proof -
  have h: "match_news_to_event sample_now (\<lambda>i. sample_now) sample_client sample_event 5 2
     = Inr [score_article sample_now sample_article sample_event
              [quoted ''Trump'', ''trump'', ''wins'']]"
    by code_simp
  from match_news_min_score [OF h] h show ?thesis by simp
qed

lemma sorted_sort_by_score: "sorted_wrt (\<lambda>a b. score b \<le> score a) (sort_by_score xs)"
proof -
  have "sorted (map (\<lambda>x. - score x) (sort_by_score xs))"
    by (simp add: sort_by_score_def)
  then show ?thesis
    by (simp add: sorted_map)
qed

lemma sorted_wrt_slice_to: "sorted_wrt R xs \<Longrightarrow> sorted_wrt R (slice_to xs n)"
  by (simp add: slice_to_def sorted_wrt_take)

lemma rank_sorted: "sorted_wrt (\<lambda>a b. score b \<le> score a) (rank scored max_articles min_score)"
  by (simp add: rank_def sorted_wrt_slice_to sorted_sort_by_score)

lemma stable_sort_by_score:
  "filter (\<lambda>s. score s = v) (sort_by_score xs) = filter (\<lambda>s. score s = v) xs"
  using sort_key_stable [of "\<lambda>x. - score x" "- v" xs] by (simp add: sort_by_score_def)

lemma rank_stable:
  "prefix (filter (\<lambda>s. score s = v) (rank scored max_articles min_score))
          (filter (\<lambda>s. score s = v) scored)"
proof -
  let ?kept = "filter (\<lambda>s. min_score \<le> score s) scored"
  have "prefix (filter (\<lambda>s. score s = v) (rank scored max_articles min_score))
               (filter (\<lambda>s. score s = v) (sort_by_score ?kept))"
    unfolding rank_def by (rule filter_mono_prefix) (rule prefix_slice_to)
  also have "filter (\<lambda>s. score s = v) (sort_by_score ?kept) = filter (\<lambda>s. score s = v) ?kept"
    by (rule stable_sort_by_score)
  also have "prefix (filter (\<lambda>s. score s = v) ?kept) (filter (\<lambda>s. score s = v) scored)"
  proof (cases "min_score \<le> v")
    case True
    then have "filter (\<lambda>s. score s = v) ?kept = filter (\<lambda>s. score s = v) scored"
      by (auto intro: filter_cong)
    then show ?thesis by simp
  next
    case False
    then have "filter (\<lambda>s. score s = v) ?kept = []"
      by (auto simp: filter_empty_conv)
    then show ?thesis by simp
  qed
  finally show ?thesis .
qed

lemma match_news_fetched:
  assumes "get_time_window now ev 7 2 = Inr (from_date, to_date)"
    and "search (build_news_query ev 8) from_date to_date ''relevancy'' 20 = Inr (articles, n)"
  shows "match_news_to_event now now_at search ev max_articles min_score =
           Inr (rank (score_all now_at ev (split (build_news_query ev 8)) articles)
                  max_articles min_score)"
  using assms by (simp add: match_news_to_event_def Let_def)

lemma sample_window:
  "get_time_window sample_now sample_event 7 2 =
     Inr (\<lparr>micros = 739609 * 86400000000, tzinfo = None\<rparr>, sample_now)"
  by code_simp

text \<open>
  Claim C2. When the time window is computed and the News Client answers with an article
  list, \<open>match_news_to_event\<close> returns a sequence whose scores never increase from one
  element to the next, and for every score value the returned elements with that score
  are an initial part of the fetched articles with that score, in fetch order: ties keep
  the order of the fetch.
\<close>

theorem match_news_sorted_stable:
  assumes "get_time_window now ev 7 2 = Inr (from_date, to_date)"
    and "search (build_news_query ev 8) from_date to_date ''relevancy'' 20 = Inr (articles, n)"
  shows "\<exists>result. match_news_to_event now now_at search ev max_articles min_score = Inr result
           \<and> sorted_wrt (\<lambda>a b. score b \<le> score a) result
           \<and> (\<forall>v. prefix (filter (\<lambda>s. score s = v) result)
                    (filter (\<lambda>s. score s = v)
                       (score_all now_at ev (split (build_news_query ev 8)) articles)))"
  using match_news_fetched [where search = search, OF assms] rank_sorted rank_stable by simp

theorem match_news_sorted_stable_witness:
  "\<exists>result. match_news_to_event sample_now (\<lambda>i. sample_now) sample_client sample_event 5 0
              = Inr result
     \<and> sorted_wrt (\<lambda>a b. score b \<le> score a) result
     \<and> (\<forall>v. prefix (filter (\<lambda>s. score s = v) result)
              (filter (\<lambda>s. score s = v)
                 (score_all (\<lambda>i. sample_now) sample_event
                    (split (build_news_query sample_event 8))
                    [sample_article,
                     sample_article\<lparr>article.title := Some ''Weather'', source_name := None\<rparr>])))"
proof -
  have h: "sample_client (build_news_query sample_event 8)
             \<lparr>micros = 739609 * 86400000000, tzinfo = None\<rparr> sample_now ''relevancy'' 20
           = Inr ([sample_article,
                   sample_article\<lparr>article.title := Some ''Weather'', source_name := None\<rparr>], 2)"
    by (simp add: sample_client_def)
  show ?thesis
    by (rule match_news_sorted_stable [where search = sample_client, OF sample_window h])
qed

text \<open>
  Claim C3. When the search operation of the News Client is reached and raises an error,
  \<open>match_news_to_event\<close> returns the empty sequence and no error; when the search answers
  with no article, it returns the empty sequence as well.
\<close>

theorem match_news_degrades:
  assumes "get_time_window now ev 7 2 = Inr (from_date, to_date)"
    and "search (build_news_query ev 8) from_date to_date ''relevancy'' 20 = Inl e
         \<or> search (build_news_query ev 8) from_date to_date ''relevancy'' 20 = Inr ([], n)"
  shows "match_news_to_event now now_at search ev max_articles min_score = Inr []"
  using assms
  by (auto simp: match_news_to_event_def Let_def rank_def score_all_def sort_by_score_def
      slice_to_def)

theorem match_news_degrades_witness:
  "match_news_to_event sample_now (\<lambda>i. sample_now) failing_client sample_event 5 2 = Inr []"
proof -
  have h: "failing_client (build_news_query sample_event 8)
             \<lparr>micros = 739609 * 86400000000, tzinfo = None\<rparr> sample_now ''relevancy'' 20
           = Inl (RequestError ''News API error'')"
    by (simp add: failing_client_def)
  show ?thesis
    by (rule match_news_degrades [where search = failing_client, OF sample_window disjI1 [OF h]])
qed

section \<open>Properties of the scorer\<close>

lemma title_rule_sound: "sound_tally acc \<Longrightarrow> sound_tally (title_rule qs t acc)"
  by (auto simp: sound_tally_def title_rule_def Let_def)

lemma desc_rule_sound: "sound_tally acc \<Longrightarrow> sound_tally (desc_rule qs t acc)"
  by (auto simp: sound_tally_def desc_rule_def Let_def)

lemma entity_rule_sound: "sound_tally acc \<Longrightarrow> sound_tally (entity_rule es t acc)"
proof (induction es arbitrary: acc)
  case Nil
  then show ?case by simp
next
  case (Cons e es)
  have "sound_tally (fst acc + 5, snd acc @ [''entity:'' @ e])"
    using Cons.prems by (auto simp: sound_tally_def)
  with Cons show ?case by simp
qed

lemma recency_rule_sound: "sound_tally acc \<Longrightarrow> sound_tally (recency_rule now a acc)"
  by (auto simp: sound_tally_def recency_rule_def Let_def split: option.splits)

lemma quality_rule_sound: "sound_tally acc \<Longrightarrow> sound_tally (quality_rule a acc)"
  by (auto simp: sound_tally_def quality_rule_def Let_def)

lemma tally_article_sound: "sound_tally (tally_article now a ev qs)"
proof -
  have "sound_tally (0, [])" by (simp add: sound_tally_def)
  then show ?thesis
    unfolding tally_article_def Let_def
    by (intro quality_rule_sound recency_rule_sound entity_rule_sound desc_rule_sound
        title_rule_sound)
qed

text \<open>
  Claim C8. The score that \<open>score_article\<close> returns is never negative, and it is zero
  exactly when the list of match reasons is empty.
\<close>

theorem score_article_nonneg:
  "0 \<le> score (score_article now a ev qs)
   \<and> ((score (score_article now a ev qs) = 0) = (match_reasons (score_article now a ev qs) = []))"
  using tally_article_sound [of now a ev qs]
  by (simp add: score_article_def Let_def sound_tally_def)

theorem score_article_nonneg_witness:
  "0 \<le> score (score_article sample_now sample_article sample_event [''trump''])
   \<and> ((score (score_article sample_now sample_article sample_event [''trump'']) = 0)
        = (match_reasons (score_article sample_now sample_article sample_event [''trump'']) = []))"
  by (rule score_article_nonneg)

lemma count_matches_length: "count_matches qs t = length (matching_terms qs t)"
  by (induction qs) (simp_all add: matching_terms_def)

lemma title_rule_shift:
  "title_rule qs t acc = (fst acc + fst (title_rule qs t (0, [])), snd acc @ snd (title_rule qs t (0, [])))"
  by (simp add: title_rule_def Let_def)

lemma desc_rule_shift:
  "desc_rule qs t acc = (fst acc + fst (desc_rule qs t (0, [])), snd acc @ snd (desc_rule qs t (0, [])))"
  by (simp add: desc_rule_def Let_def)

lemma entity_rule_shift:
  "entity_rule es t acc = (fst acc + fst (entity_rule es t (0, [])), snd acc @ snd (entity_rule es t (0, [])))"
proof (induction es arbitrary: acc)
  case Nil
  show ?case by simp
next
  case (Cons e es)
  show ?case
  proof (cases "contains t (lower e)")
    case True
    have "entity_rule (e # es) t acc = entity_rule es t (fst acc + 5, snd acc @ [''entity:'' @ e])"
      using True by simp
    also have "\<dots> = (fst acc + 5 + fst (entity_rule es t (0, [])),
                      (snd acc @ [''entity:'' @ e]) @ snd (entity_rule es t (0, [])))"
      using Cons.IH [of "(fst acc + 5, snd acc @ [''entity:'' @ e])"] by simp
    finally have l: "entity_rule (e # es) t acc = (fst acc + 5 + fst (entity_rule es t (0, [])),
                      (snd acc @ [''entity:'' @ e]) @ snd (entity_rule es t (0, [])))" .
    have "entity_rule (e # es) t (0, []) = entity_rule es t (5, [''entity:'' @ e])"
      using True by simp
    also have "\<dots> = (5 + fst (entity_rule es t (0, [])),
                      [''entity:'' @ e] @ snd (entity_rule es t (0, [])))"
      using Cons.IH [of "(5, [''entity:'' @ e])"] by simp
    finally have r: "entity_rule (e # es) t (0, []) = (5 + fst (entity_rule es t (0, [])),
                      [''entity:'' @ e] @ snd (entity_rule es t (0, [])))" .
    show ?thesis unfolding l r by simp
  next
    case False
    then show ?thesis using Cons.IH [of acc] by simp
  qed
qed

lemma recency_rule_shift:
  "recency_rule now a acc = (fst acc + fst (recency_rule now a (0, [])), snd acc @ snd (recency_rule now a (0, [])))"
  by (simp add: recency_rule_def Let_def split: option.splits)

lemma quality_rule_shift:
  "quality_rule a acc = (fst acc + fst (quality_rule a (0, [])), snd acc @ snd (quality_rule a (0, [])))"
  by (simp add: quality_rule_def Let_def)

lemma entity_rule_tags:
  "r \<in> set (snd (entity_rule es t acc)) \<Longrightarrow> r \<in> set (snd acc) \<or> prefix ''entity:'' r"
proof (induction es arbitrary: acc)
  case Nil
  then show ?case by simp
next
  case (Cons e es)
  show ?case
  proof (cases "contains t (lower e)")
    case True
    with Cons.prems have "r \<in> set (snd (entity_rule es t (fst acc + 5, snd acc @ [''entity:'' @ e])))"
      by simp
    from Cons.IH [OF this] show ?thesis by auto
  next
    case False
    with Cons.prems have "r \<in> set (snd (entity_rule es t acc))" by simp
    from Cons.IH [OF this] show ?thesis .
  qed
qed

lemma title_rule_tags: "r \<in> set (snd (title_rule qs t (0, []))) \<Longrightarrow> prefix ''title_match:'' r"
  by (auto simp: title_rule_def Let_def split: if_splits)

lemma desc_rule_tags: "r \<in> set (snd (desc_rule qs t (0, []))) \<Longrightarrow> prefix ''desc_match:'' r"
  by (auto simp: desc_rule_def Let_def split: if_splits)

lemma quality_rule_tags: "r \<in> set (snd (quality_rule a (0, []))) \<Longrightarrow> r = ''quality_source''"
  by (auto simp: quality_rule_def Let_def split: if_splits)

lemma recency_rule_tags: "r \<in> set (snd (recency_rule now a (0, []))) \<Longrightarrow> r = ''very_recent'' \<or> r = ''recent''"
  by (auto simp: recency_rule_def Let_def split: if_splits option.splits)

text \<open>The tally as the sum and the concatenation of what the five rules give on their own.\<close>

lemma tally_article_parts:
  "tally_article now a ev qs =
     (fst (title_rule qs (lower (text_or_empty (article.title a))) (0, []))
        + fst (desc_rule qs (lower (text_or_empty (article.description a))) (0, []))
        + fst (entity_rule (named_entities (event.title ev)) (lower (text_or_empty (article.title a))) (0, []))
        + fst (recency_rule now a (0, []))
        + fst (quality_rule a (0, [])),
      snd (title_rule qs (lower (text_or_empty (article.title a))) (0, []))
        @ snd (desc_rule qs (lower (text_or_empty (article.description a))) (0, []))
        @ snd (entity_rule (named_entities (event.title ev)) (lower (text_or_empty (article.title a))) (0, []))
        @ snd (recency_rule now a (0, []))
        @ snd (quality_rule a (0, [])))"
proof -
  let ?t = "lower (text_or_empty (article.title a))"
  let ?d = "lower (text_or_empty (article.description a))"
  let ?es = "named_entities (event.title ev)"
  let ?T = "title_rule qs ?t (0, [])"
  let ?D = "desc_rule qs ?d (0, [])"
  let ?E = "entity_rule ?es ?t (0, [])"
  let ?R = "recency_rule now a (0, [])"
  let ?Q = "quality_rule a (0, [])"
  have s1: "desc_rule qs ?d ?T = (fst ?T + fst ?D, snd ?T @ snd ?D)"
    by (rule desc_rule_shift)
  have s2: "entity_rule ?es ?t (fst ?T + fst ?D, snd ?T @ snd ?D)
              = (fst ?T + fst ?D + fst ?E, snd ?T @ snd ?D @ snd ?E)"
    using entity_rule_shift [of ?es ?t "(fst ?T + fst ?D, snd ?T @ snd ?D)"] by simp
  have s3: "recency_rule now a (fst ?T + fst ?D + fst ?E, snd ?T @ snd ?D @ snd ?E)
              = (fst ?T + fst ?D + fst ?E + fst ?R, snd ?T @ snd ?D @ snd ?E @ snd ?R)"
    using recency_rule_shift [of now a "(fst ?T + fst ?D + fst ?E, snd ?T @ snd ?D @ snd ?E)"]
    by simp
  have s4: "quality_rule a (fst ?T + fst ?D + fst ?E + fst ?R, snd ?T @ snd ?D @ snd ?E @ snd ?R)
              = (fst ?T + fst ?D + fst ?E + fst ?R + fst ?Q,
                 snd ?T @ snd ?D @ snd ?E @ snd ?R @ snd ?Q)"
    using quality_rule_shift [of a "(fst ?T + fst ?D + fst ?E + fst ?R,
                                     snd ?T @ snd ?D @ snd ?E @ snd ?R)"]
    by simp
  show ?thesis
    unfolding tally_article_def Let_def s1 s2 s3 s4 ..
qed

lemma micros_to_naive: "micros (to_naive p) = micros p"
  by (simp add: to_naive_def)

lemma div_le_iff_int:
  fixes x d k :: int
  assumes "0 < d"
  shows "(x div d \<le> k) = (x < (k + 1) * d)"
proof -
  have a: "(x + (- (k + 1)) * d) div d = - (k + 1) + x div d"
    using assms by simp
  have b: "((x + (- (k + 1)) * d) div d < 0) = (x + (- (k + 1)) * d < 0)"
    using assms by (rule pos_imp_zdiv_neg_iff)
  have "(x div d \<le> k) = (- (k + 1) + x div d < 0)" by linarith
  also have "\<dots> = (x + (- (k + 1)) * d < 0)" using a b by simp
  also have "\<dots> = (x < (k + 1) * d)" by (simp add: algebra_simps)
  finally show ?thesis .
qed

lemma day_us_pos: "0 < day_us"
  by (simp add: day_us_def)

lemma days_old_le_1: "(days_between now q \<le> 1) = (micros now - micros q < 2 * day_us)"
  using div_le_iff_int [OF day_us_pos, of "micros now - micros q" 1]
  by (simp add: days_between_def)

lemma days_old_le_3: "(days_between now q \<le> 3) = (micros now - micros q < 4 * day_us)"
  using div_le_iff_int [OF day_us_pos, of "micros now - micros q" 3]
  by (simp add: days_between_def)

lemma score_recency_split:
  "score (score_article now a ev qs) =
     score (score_article now (a\<lparr>published_at := None\<rparr>) ev qs) + fst (recency_rule now a (0, []))"
  by (simp add: score_article_def Let_def tally_article_parts recency_rule_def quality_rule_def)

lemma reasons_recency_tag:
  assumes "r = ''very_recent'' \<or> r = ''recent''"
  shows "(r \<in> set (match_reasons (score_article now a ev qs)))
           = (r \<in> set (snd (recency_rule now a (0, []))))"
  using assms
    title_rule_tags [of r qs "lower (text_or_empty (article.title a))"]
    desc_rule_tags [of r qs "lower (text_or_empty (article.description a))"]
    entity_rule_tags [of r "named_entities (event.title ev)"
                        "lower (text_or_empty (article.title a))" "(0, [])"]
    quality_rule_tags [of r a]
  by (auto simp: score_article_def Let_def tally_article_parts)

lemma recency_rule_value:
  "published_at a = Some p \<Longrightarrow>
   recency_rule now a (0, []) =
     (if micros now - micros p < 2 * day_us then (2, [''very_recent''])
      else if micros now - micros p < 4 * day_us then (1, [''recent''])
      else (0, []))"
  by (simp add: recency_rule_def Let_def days_old_le_1 days_old_le_3 micros_to_naive)

text \<open>
  Claim C4, amended. The recency rule counts whole days, rounded down. For an article with
  \<open>published_at\<close> present it adds 2 with the tag \<open>very_recent\<close> exactly when less than two
  days lie between the publication and the clock reading (this includes a publication in
  the future), adds 1 with the tag \<open>recent\<close> exactly when that distance is at least two and
  less than four days, and adds nothing otherwise; the rest of the score is that of the
  same article without a publication time. With \<open>published_at\<close> absent neither tag is
  given.
\<close>

theorem recency_bonus_whole_days:
  "case published_at a of
     None \<Rightarrow> ''very_recent'' \<notin> set (match_reasons (score_article now a ev qs))
            \<and> ''recent'' \<notin> set (match_reasons (score_article now a ev qs))
   | Some p \<Rightarrow>
       score (score_article now a ev qs) =
         score (score_article now (a\<lparr>published_at := None\<rparr>) ev qs)
           + (if micros now - micros p < 2 * day_us then 2
              else if micros now - micros p < 4 * day_us then 1 else 0)
       \<and> (''very_recent'' \<in> set (match_reasons (score_article now a ev qs)))
            = (micros now - micros p < 2 * day_us)
       \<and> (''recent'' \<in> set (match_reasons (score_article now a ev qs)))
            = (2 * day_us \<le> micros now - micros p \<and> micros now - micros p < 4 * day_us)"
proof (cases "published_at a")
  case None
  then have "recency_rule now a (0, []) = (0, [])"
    by (simp add: recency_rule_def)
  with None show ?thesis
    by (simp add: reasons_recency_tag)
next
  case (Some p)
  from Some show ?thesis
    using day_us_pos score_recency_split [of now a ev qs]
    by (simp add: reasons_recency_tag recency_rule_value)
qed

theorem recency_bonus_whole_days_witness:
  "score (score_article sample_now (plain_article\<lparr>published_at := Some (stamp 24)\<rparr>) sample_event [])
      = score (score_article sample_now (plain_article\<lparr>published_at := None\<rparr>) sample_event []) + 2
   \<and> ''very_recent'' \<in> set (match_reasons
        (score_article sample_now (plain_article\<lparr>published_at := Some (stamp 24)\<rparr>) sample_event []))
   \<and> ''recent'' \<notin> set (match_reasons
        (score_article sample_now (plain_article\<lparr>published_at := Some (stamp 24)\<rparr>) sample_event []))"
  using recency_bonus_whole_days
          [where a = "plain_article\<lparr>published_at := Some (stamp 24)\<rparr>" and now = sample_now
             and ev = sample_event and qs = "[]"]
  by (simp add: stamp_def sample_now_def day_us_def)

text \<open>
  An article published 36 hours before the clock reading is more than one day old, yet it
  receives the \<open>very_recent\<close> bonus of 2 and not the \<open>recent\<close> bonus of 1.
\<close>

theorem recency_36_hours_counterexample:
  "micros sample_now - micros (stamp 36) = 129600000000
   \<and> day_us < micros sample_now - micros (stamp 36)
   \<and> score (score_article sample_now (plain_article\<lparr>published_at := Some (stamp 36)\<rparr>) sample_event []) = 2
   \<and> match_reasons (score_article sample_now (plain_article\<lparr>published_at := Some (stamp 36)\<rparr>) sample_event [])
       = [''very_recent'']"
  by code_simp

text \<open>
  Claim C9. For an article whose \<open>published_at\<close> is later than the clock reading, both
  taken as the code compares them, by their wall-clock fields with any time zone dropped,
  the age in whole days is negative and \<open>score_article\<close> gives the \<open>very_recent\<close> bonus: the tag is
  among the reasons and the score is 2 more than that of the same article without a
  publication time.
\<close>

theorem future_article_very_recent:
  assumes "published_at a = Some p" and "micros now < micros p"
  shows "days_between now (to_naive p) < 0
         \<and> ''very_recent'' \<in> set (match_reasons (score_article now a ev qs))
         \<and> score (score_article now a ev qs)
             = score (score_article now (a\<lparr>published_at := None\<rparr>) ev qs) + 2"
proof -
  have neg: "days_between now (to_naive p) < 0"
    using assms(2) day_us_pos by (simp add: days_between_def micros_to_naive pos_imp_zdiv_neg_iff)
  have lt: "micros now - micros p < 2 * day_us"
    using assms(2) day_us_pos by simp
  from assms(1) lt neg show ?thesis
    using score_recency_split [of now a ev qs]
    by (simp add: reasons_recency_tag recency_rule_value)
qed

theorem future_article_very_recent_witness:
  "days_between sample_now (to_naive (stamp (- 5))) < 0
   \<and> ''very_recent'' \<in> set (match_reasons
        (score_article sample_now (plain_article\<lparr>published_at := Some (stamp (- 5))\<rparr>) sample_event []))
   \<and> score (score_article sample_now (plain_article\<lparr>published_at := Some (stamp (- 5))\<rparr>) sample_event [])
       = score (score_article sample_now (plain_article\<lparr>published_at := Some (stamp (- 5)), published_at := None\<rparr>) sample_event []) + 2"
proof -
  have h1: "published_at (plain_article\<lparr>published_at := Some (stamp (- 5))\<rparr>) = Some (stamp (- 5))"
    by simp
  have h2: "micros sample_now < micros (stamp (- 5))"
    by (simp add: sample_now_def stamp_def)
  show ?thesis
    by (rule future_article_very_recent [OF h1 h2])
qed

lemma other_rules_parts:
  "other_rules now a ev qs =
     (fst (desc_rule qs (lower (text_or_empty (article.description a))) (0, []))
        + fst (entity_rule (named_entities (event.title ev)) (lower (text_or_empty (article.title a))) (0, []))
        + fst (recency_rule now a (0, []))
        + fst (quality_rule a (0, [])),
      snd (desc_rule qs (lower (text_or_empty (article.description a))) (0, []))
        @ snd (entity_rule (named_entities (event.title ev)) (lower (text_or_empty (article.title a))) (0, []))
        @ snd (recency_rule now a (0, []))
        @ snd (quality_rule a (0, [])))"
proof -
  let ?t = "lower (text_or_empty (article.title a))"
  let ?d = "lower (text_or_empty (article.description a))"
  let ?es = "named_entities (event.title ev)"
  let ?D = "desc_rule qs ?d (0, [])"
  let ?E = "entity_rule ?es ?t (0, [])"
  let ?R = "recency_rule now a (0, [])"
  let ?Q = "quality_rule a (0, [])"
  have s2: "entity_rule ?es ?t ?D = (fst ?D + fst ?E, snd ?D @ snd ?E)"
    by (rule entity_rule_shift)
  have s3: "recency_rule now a (fst ?D + fst ?E, snd ?D @ snd ?E)
              = (fst ?D + fst ?E + fst ?R, snd ?D @ snd ?E @ snd ?R)"
    using recency_rule_shift [of now a "(fst ?D + fst ?E, snd ?D @ snd ?E)"] by simp
  have s4: "quality_rule a (fst ?D + fst ?E + fst ?R, snd ?D @ snd ?E @ snd ?R)
              = (fst ?D + fst ?E + fst ?R + fst ?Q, snd ?D @ snd ?E @ snd ?R @ snd ?Q)"
    using quality_rule_shift [of a "(fst ?D + fst ?E + fst ?R, snd ?D @ snd ?E @ snd ?R)"]
    by simp
  show ?thesis
    unfolding other_rules_def s2 s3 s4 ..
qed

lemma title_rule_value:
  "title_rule qs t (0, []) =
     (if 0 < length (matching_terms qs t)
      then (real (3 * length (matching_terms qs t)),
            [''title_match:'' @ str_nat (length (matching_terms qs t))])
      else (0, []))"
  by (simp add: title_rule_def Let_def count_matches_length mult.commute)

lemma no_title_tag_desc:
  "filter (prefix ''title_match:'') (snd (desc_rule qs d (0, []))) = []"
  using desc_rule_tags [of _ qs d] by (fastforce simp: filter_empty_conv prefix_def)

lemma no_title_tag_entity:
  "filter (prefix ''title_match:'') (snd (entity_rule es t (0, []))) = []"
  using entity_rule_tags [of _ es t "(0, [])"] by (fastforce simp: filter_empty_conv prefix_def)

lemma no_title_tag_recency:
  "filter (prefix ''title_match:'') (snd (recency_rule now a (0, []))) = []"
  using recency_rule_tags [of _ now a] by (fastforce simp: filter_empty_conv prefix_def)

lemma no_title_tag_quality:
  "filter (prefix ''title_match:'') (snd (quality_rule a (0, []))) = []"
  using quality_rule_tags [of _ a] by (fastforce simp: filter_empty_conv prefix_def)

text \<open>
  Claim C5, amended. The title rule adds 3 for every entry of the query term list whose
  cleaned form (quote markers stripped, lower-cased) occurs in the lower-cased article
  title, an entry that is listed twice counting twice; the score is that sum plus what the
  four other rules add. The reasons hold exactly one tag that starts with \<open>title_match:\<close>
  when at least one entry matches, carrying the number of matching entries, and none
  otherwise.
\<close>

theorem title_match_rule:
  "score (score_article now a ev qs) =
     real (3 * length (matching_terms qs (lower (text_or_empty (article.title a)))))
       + fst (other_rules now a ev qs)
   \<and> filter (prefix ''title_match:'') (match_reasons (score_article now a ev qs)) =
       (if 0 < length (matching_terms qs (lower (text_or_empty (article.title a))))
        then [''title_match:'' @
                str_nat (length (matching_terms qs (lower (text_or_empty (article.title a)))))]
        else [])"
  by (simp add: score_article_def Let_def tally_article_parts other_rules_parts title_rule_value
      no_title_tag_desc no_title_tag_entity no_title_tag_recency no_title_tag_quality)

theorem title_match_rule_witness:
  "score (score_article sample_now sample_article sample_event [''trump'', ''rain'']) =
     real (3 * length (matching_terms [''trump'', ''rain'']
                         (lower (text_or_empty (article.title sample_article)))))
       + fst (other_rules sample_now sample_article sample_event [''trump'', ''rain''])
   \<and> filter (prefix ''title_match:'')
        (match_reasons (score_article sample_now sample_article sample_event [''trump'', ''rain''])) =
       (if 0 < length (matching_terms [''trump'', ''rain'']
                         (lower (text_or_empty (article.title sample_article))))
        then [''title_match:'' @
                str_nat (length (matching_terms [''trump'', ''rain'']
                                   (lower (text_or_empty (article.title sample_article)))))]
        else [])"
  by (rule title_match_rule)

text \<open>
  With the term \<open>trump\<close> listed twice there is one distinct matching term, and the tag
  reads \<open>title_match:2\<close>.
\<close>

theorem title_match_duplicates_counterexample:
  "length (remdups (matching_terms [''trump'', ''trump''] (lower ''Trump wins again''))) = 1
   \<and> match_reasons (score_article sample_now
        (plain_article\<lparr>article.title := Some ''Trump wins again''\<rparr>) sample_event
        [''trump'', ''trump'']) = [''title_match:2'', ''entity:Trump'']
   \<and> score (score_article sample_now
        (plain_article\<lparr>article.title := Some ''Trump wins again''\<rparr>) sample_event
        [''trump'', ''trump'']) = 11"
  by code_simp

section \<open>Properties of the time window\<close>

lemma dt_minus_days_ok:
  assumes "\<bar>n\<bar> \<le> 999999999" and "0 \<le> micros d - n * day_us" and "micros d - n * day_us \<le> dt_max"
  shows "dt_minus_days d n = Inr (d\<lparr>micros := micros d - n * day_us\<rparr>)"
  using assms by (simp add: dt_minus_days_def timedelta_days_def dt_add_def Let_def)

lemma dt_plus_one_day_ok:
  assumes "0 \<le> micros d" and "micros d + day_us \<le> dt_max"
  shows "dt_plus_days d 1 = Inr (d\<lparr>micros := micros d + day_us\<rparr>)"
  using assms day_us_pos by (simp add: dt_plus_days_def timedelta_days_def dt_add_def Let_def)

lemma window_end_ok:
  assumes "0 \<le> micros now" and "micros now + day_us \<le> dt_max"
  shows "\<exists>to_date. window_end now ev = Inr to_date"
  using dt_plus_one_day_ok [OF assms]
  by (simp add: window_end_def split: option.splits)

text \<open>
  Inside the range of datetimes the window starts where it should. Let the clock reading
  be a naive datetime at least 30 days after the first and at least one day before the
  last datetime. When \<open>event.start_date\<close> is present and \<open>start_date - buffer_days\<close> is a
  datetime, \<open>get_time_window\<close> returns as \<open>from_date\<close> the later of
  \<open>start_date - buffer_days\<close> and \<open>now - 30 days\<close>; when it is absent and
  \<open>now - default_days_back days\<close> is a datetime, it returns that.
\<close>

lemma time_window_in_range:
  assumes "tzinfo now = None" and "30 * day_us \<le> micros now" and "micros now + day_us \<le> dt_max"
    and "case start_date ev of
           Some s \<Rightarrow> \<bar>buffer_days\<bar> \<le> 999999999 \<and> 0 \<le> micros s - buffer_days * day_us
                      \<and> micros s - buffer_days * day_us \<le> dt_max
         | None \<Rightarrow> \<bar>default_days_back\<bar> \<le> 999999999 \<and> 0 \<le> micros now - default_days_back * day_us
                      \<and> micros now - default_days_back * day_us \<le> dt_max"
  shows "\<exists>to_date. get_time_window now ev default_days_back buffer_days =
           Inr (case start_date ev of
                  Some s \<Rightarrow> \<lparr>micros = max (micros s - buffer_days * day_us) (micros now - 30 * day_us),
                             tzinfo = None\<rparr>
                | None \<Rightarrow> \<lparr>micros = micros now - default_days_back * day_us, tzinfo = None\<rparr>,
                to_date)"
proof -
  have nonneg: "0 \<le> micros now"
    using assms(2) day_us_pos by linarith
  obtain to_date where e: "window_end now ev = Inr to_date"
    using window_end_ok [OF nonneg assms(3)] by blast
  have m: "dt_minus_days now 30 = Inr (now\<lparr>micros := micros now - 30 * day_us\<rparr>)"
    using assms(2,3) day_us_pos by (intro dt_minus_days_ok) simp_all
  have "window_start now ev default_days_back buffer_days =
          Inr (case start_date ev of
                 Some s \<Rightarrow> \<lparr>micros = max (micros s - buffer_days * day_us) (micros now - 30 * day_us),
                            tzinfo = None\<rparr>
               | None \<Rightarrow> \<lparr>micros = micros now - default_days_back * day_us, tzinfo = None\<rparr>)"
  proof (cases "start_date ev")
    case None
    with assms(1,4) show ?thesis
      by (simp add: window_start_def dt_minus_days_ok)
  next
    case (Some s)
    with assms(4) have "dt_minus_days (to_naive s) buffer_days
        = Inr ((to_naive s)\<lparr>micros := micros s - buffer_days * day_us\<rparr>)"
      using dt_minus_days_ok [of buffer_days "to_naive s"] by (simp add: micros_to_naive)
    with Some m assms(1) show ?thesis
      by (simp add: window_start_def dt_max2_def to_naive_def max_def)
  qed
  with e show ?thesis
    by (simp add: get_time_window_def)
qed

lemma time_window_forty_days:
  "\<exists>to_date. get_time_window sample_now old_event 7 2 =
     Inr (\<lparr>micros = micros sample_now - 30 * day_us, tzinfo = None\<rparr>, to_date)"
  using time_window_in_range [where now = sample_now and ev = old_event and buffer_days = 2
          and default_days_back = 7]
  by (simp add: sample_now_def old_event_def sample_event_def day_us_def dt_max_def)

text \<open>
  Claim C6. The claim asks for \<open>from_date = max(start_date - buffer_days, now - 30 days)\<close>
  whenever the event has a start date. The code subtracts the buffer before it clamps:
  for an event that starts on 0001-01-02, with the default buffer of two days and the
  clock at 2026-01-01, the subtraction leaves the range of datetimes and the call raises
  \<open>OverflowError\<close>. The start that the claim names exists: two days before the start
  date lies before \<open>now - 30 days\<close>, and \<open>now - 30 days\<close> is a datetime.
\<close>

theorem time_window_early_start:
  "start_date early_event = Some \<lparr>micros = 86400000000, tzinfo = Some 0\<rparr>
   \<and> get_time_window sample_now early_event 7 2 = Inl OverflowError
   \<and> dt_minus_days sample_now 30
       = Inr \<lparr>micros = micros sample_now - 30 * day_us, tzinfo = None\<rparr>
   \<and> 86400000000 - 2 * day_us < micros sample_now - 30 * day_us"
  by code_simp

section \<open>Properties of the query builder\<close>

lemma dq_not_upper: "\<not> is_upper dq"
  by (simp add: is_upper_def dq_def)

lemma cap_word_upper: "cap_word s = Some (w, r) \<Longrightarrow> w \<noteq> [] \<and> is_upper (hd w)"
  by (cases s) (auto split: if_splits)

lemma findall_entities_upper:
  "e \<in> set (findall_entities pw s) \<Longrightarrow> e \<noteq> [] \<and> is_upper (hd e)"
proof (induction pw s rule: findall_entities.induct)
  case (1 pw)
  then show ?case by (simp add: findall_entities.simps)
next
  case (2 pw c cs)
  show ?case
  proof (cases pw)
    case True
    with "2.prems" have "e \<in> set (findall_entities (is_word c) cs)"
      by (simp add: findall_entities.simps)
    with "2.IH"(1) True show ?thesis by simp
  next
    case False
    show ?thesis
    proof (cases "cap_word (c # cs)")
      case None
      with False "2.prems" have "e \<in> set (findall_entities (is_word c) cs)"
        by (simp add: findall_entities.simps)
      with "2.IH"(2) False None show ?thesis by simp
    next
      case (Some p)
      obtain w r where p: "p = (w, r)" by (cases p)
      obtain m r' where mw: "more_words r = (m, r')" by (cases "more_words r")
      from False Some p mw "2.prems"
      have "e = w @ m \<or> e \<in> set (findall_entities True r')"
        by (simp add: findall_entities.simps)
      then show ?thesis
      proof
        assume "e = w @ m"
        with cap_word_upper [of "c # cs" w r] Some p show ?thesis by simp
      next
        assume "e \<in> set (findall_entities True r')"
        with "2.IH"(3) [OF False Some p [symmetric] mw [symmetric]] show ?thesis by simp
      qed
    qed
  qed
qed

lemma named_entities_upper:
  "e \<in> set (named_entities t) \<Longrightarrow> e \<noteq> [] \<and> is_upper (hd e)"
  unfolding named_entities_def by (rule findall_entities_upper)

lemma upper_not_quoted: "e \<noteq> [] \<Longrightarrow> is_upper (hd e) \<Longrightarrow> e \<noteq> quoted e'"
  using dq_not_upper by (auto simp: quoted_def)

lemma add_entities_closed:
  assumes "\<forall>e \<in> set ents. e \<noteq> [] \<and> is_upper (hd e)"
  shows "add_entities mx ents terms =
           rev (map quoted (take (max 1 (nat (mx - int (length terms))))
                  (filter (\<lambda>e. lower e \<notin> set STOP_WORDS \<and> e \<notin> set terms) ents))) @ terms"
  using assms
proof (induction ents arbitrary: terms)
  case Nil
  show ?case by simp
next
  case (Cons e ents)
  have up: "\<forall>x \<in> set ents. x \<noteq> [] \<and> is_upper (hd x)"
    using Cons.prems by simp
  show ?case
  proof (cases "lower e \<notin> set STOP_WORDS \<and> e \<notin> set terms")
    case False
    then show ?thesis using Cons.IH [OF up, of terms] by auto
  next
    case True
    show ?thesis
    proof (cases "mx \<le> int (length (quoted e # terms))")
      case full: True
      then have "max 1 (nat (mx - int (length terms))) = 1" by auto
      with True full show ?thesis by simp
    next
      case room: False
      have same: "filter (\<lambda>x. lower x \<notin> set STOP_WORDS \<and> x \<notin> set (quoted e # terms)) ents
                  = filter (\<lambda>x. lower x \<notin> set STOP_WORDS \<and> x \<notin> set terms) ents"
        using up upper_not_quoted by (intro filter_cong) auto
      have k: "max 1 (nat (mx - int (length terms)))
                = Suc (max 1 (nat (mx - int (length (quoted e # terms)))))"
        using room by auto
      have "add_entities mx (e # ents) terms = add_entities mx ents (quoted e # terms)"
        using True room by simp
      also have "\<dots> = rev (map quoted (take (max 1 (nat (mx - int (length (quoted e # terms)))))
                    (filter (\<lambda>x. lower x \<notin> set STOP_WORDS \<and> x \<notin> set terms) ents)))
                  @ quoted e # terms"
        using Cons.IH [OF up, of "quoted e # terms"] same by simp
      finally show ?thesis using True k by simp
    qed
  qed
qed

lemma build_news_terms_closed:
  "build_news_terms ev mx =
     slice_to (rev (map quoted (take (entity_budget ev mx) (eligible_entities ev mx)))
               @ tag_terms ev mx) mx"
  using add_entities_closed [of "named_entities (event.title ev)" mx "tag_terms ev mx"]
    named_entities_upper [of _ "event.title ev"]
  by (simp add: build_news_terms_def entity_budget_def eligible_entities_def)

lemma upper_not_space: "is_upper c \<Longrightarrow> \<not> is_space c"
  by (auto simp: is_upper_def is_space_def Let_def)

lemma lower_not_space: "is_lower c \<Longrightarrow> \<not> is_space c"
  by (auto simp: is_lower_def is_space_def Let_def)

lemma capitalized_no_space: "capitalized w \<Longrightarrow> c \<in> set w \<Longrightarrow> \<not> is_space c"
  by (cases w) (auto simp: capitalized_def list_all_iff upper_not_space lower_not_space)

lemma capitalized_nonempty: "capitalized w \<Longrightarrow> w \<noteq> []"
  by (auto simp: capitalized_def)

lemma cap_word_append: "cap_word s = Some (w, r) \<Longrightarrow> s = w @ r"
  by (cases s) (auto split: if_splits)

lemma cap_word_capitalized: "cap_word s = Some (w, r) \<Longrightarrow> capitalized w"
  by (cases s) (auto simp: capitalized_def list_all_iff split: if_splits dest: set_takeWhileD)

lemma split_acc_word:
  "\<forall>c \<in> set w. \<not> is_space c \<Longrightarrow> split_acc acc (w @ s) = split_acc (acc @ w) s"
  by (induction w arbitrary: acc) simp_all

lemma split_acc_skip:
  "\<forall>c \<in> set ws. is_space c \<Longrightarrow> split_acc [] (ws @ s) = split_acc [] s"
  by (induction ws) simp_all

lemma split_acc_spaces:
  assumes "ws \<noteq> []" and "\<forall>c \<in> set ws. is_space c" and "acc \<noteq> []"
  shows "split_acc acc (ws @ s) = acc # split_acc [] s"
proof (cases ws)
  case Nil
  with assms(1) show ?thesis by simp
next
  case (Cons c cs)
  with assms(2) have "is_space c" and "\<forall>c \<in> set cs. is_space c" by simp_all
  with Cons assms(3) show ?thesis by (simp add: split_acc_skip)
qed

lemma more_words_append: "more_words s = (m, r) \<Longrightarrow> s = m @ r"
proof (induction s arbitrary: m r rule: more_words.induct)
  case (1 s)
  show ?case
  proof (cases "takeWhile is_space s = []")
    case True
    with "1.prems" show ?thesis by (simp add: more_words.simps [of s])
  next
    case False
    show ?thesis
    proof (cases "cap_word (dropWhile is_space s)")
      case None
      with False "1.prems" show ?thesis by (simp add: more_words.simps [of s])
    next
      case (Some p)
      obtain w r0 where p: "p = (w, r0)" by (cases p)
      obtain m0 r1 where mw: "more_words r0 = (m0, r1)" by (cases "more_words r0")
      from False Some p mw "1.prems" have mr: "m = takeWhile is_space s @ w @ m0" "r = r1"
        by (simp_all add: more_words.simps [of s])
      have "r0 = m0 @ r1"
        using "1.IH" [OF False Some p [symmetric] mw] .
      moreover have "dropWhile is_space s = w @ r0"
        using Some p by (simp add: cap_word_append)
      moreover have "s = takeWhile is_space s @ dropWhile is_space s" by simp
      ultimately show ?thesis using mr by (metis append.assoc)
    qed
  qed
qed

lemma more_words_stops: "more_words s = (m, r) \<Longrightarrow> more_words r = ([], r)"
proof (induction s arbitrary: m r rule: more_words.induct)
  case (1 s)
  show ?case
  proof (cases "takeWhile is_space s = []")
    case True
    with "1.prems" have "r = s" by (simp add: more_words.simps [of s])
    with True show ?thesis by (simp add: more_words.simps [of s])
  next
    case False
    show ?thesis
    proof (cases "cap_word (dropWhile is_space s)")
      case None
      with False "1.prems" have "r = s" by (simp add: more_words.simps [of s])
      with False None show ?thesis by (simp add: more_words.simps [of s])
    next
      case (Some p)
      obtain w r0 where p: "p = (w, r0)" by (cases p)
      obtain m0 r1 where mw: "more_words r0 = (m0, r1)" by (cases "more_words r0")
      from False Some p mw "1.prems" have "r = r1"
        by (simp add: more_words.simps [of s])
      with "1.IH" [OF False Some p [symmetric] mw] show ?thesis by simp
    qed
  qed
qed

lemma more_words_split:
  "more_words s = (m, r) \<Longrightarrow> acc \<noteq> [] \<Longrightarrow>
     \<exists>rest. split_acc acc m = acc # rest \<and> list_all capitalized rest"
proof (induction s arbitrary: m r acc rule: more_words.induct)
  case (1 s)
  show ?case
  proof (cases "takeWhile is_space s = []")
    case True
    with "1.prems" show ?thesis by (simp add: more_words.simps [of s])
  next
    case False
    show ?thesis
    proof (cases "cap_word (dropWhile is_space s)")
      case None
      with False "1.prems" show ?thesis by (simp add: more_words.simps [of s])
    next
      case (Some p)
      obtain w r0 where p: "p = (w, r0)" by (cases p)
      obtain m0 r1 where mw: "more_words r0 = (m0, r1)" by (cases "more_words r0")
      from False Some p mw "1.prems" have m: "m = takeWhile is_space s @ w @ m0"
        by (simp add: more_words.simps [of s])
      have "cap_word (dropWhile is_space s) = Some (w, r0)"
        using Some p by simp
      then have cw: "capitalized w"
        by (rule cap_word_capitalized)
      then have wn: "w \<noteq> []" by (rule capitalized_nonempty)
      obtain rest where rest: "split_acc w m0 = w # rest" "list_all capitalized rest"
        using "1.IH" [OF False Some p [symmetric] mw wn] by blast
      have sp: "\<forall>c \<in> set (takeWhile is_space s). is_space c"
        by (auto dest: set_takeWhileD)
      have "split_acc acc m = acc # split_acc [] (w @ m0)"
        unfolding m using False sp "1.prems"(2) by (rule split_acc_spaces)
      also have "split_acc [] (w @ m0) = split_acc w m0"
        using split_acc_word [of w "[]" m0] cw capitalized_no_space by auto
      finally show ?thesis using rest cw by simp
    qed
  qed
qed

lemma findall_entities_shape:
  "e \<in> set (findall_entities pw s) \<Longrightarrow>
     split e \<noteq> [] \<and> list_all capitalized (split e)
     \<and> (\<exists>pre post. s = pre @ e @ post
           \<and> (if pre = [] then \<not> pw else \<not> is_word (last pre))
           \<and> more_words post = ([], post))"
proof (induction pw s rule: findall_entities.induct)
  case (1 pw)
  then show ?case by (simp add: findall_entities.simps)
next
  case (2 pw c cs)
  have skip: ?case if mem: "e \<in> set (findall_entities (is_word c) cs)"
    and ih: "e \<in> set (findall_entities (is_word c) cs) \<Longrightarrow>
       split e \<noteq> [] \<and> list_all capitalized (split e)
       \<and> (\<exists>pre post. cs = pre @ e @ post
             \<and> (if pre = [] then \<not> is_word c else \<not> is_word (last pre))
             \<and> more_words post = ([], post))"
  proof -
    from ih [OF mem] obtain pre post where sh: "split e \<noteq> []" "list_all capitalized (split e)"
      and d: "cs = pre @ e @ post" "if pre = [] then \<not> is_word c else \<not> is_word (last pre)"
        "more_words post = ([], post)"
      by blast
    have "c # cs = (c # pre) @ e @ post" using d(1) by simp
    moreover have "\<not> is_word (last (c # pre))" using d(2) by (simp split: if_splits)
    ultimately show ?thesis using sh d(3) by (metis list.distinct(1))
  qed
  show ?case
  proof (cases pw)
    case True
    with "2.prems" have "e \<in> set (findall_entities (is_word c) cs)"
      by (simp add: findall_entities.simps)
    then show ?thesis using "2.IH"(1) [OF True] by (rule skip)
  next
    case False
    show ?thesis
    proof (cases "cap_word (c # cs)")
      case None
      with False "2.prems" have "e \<in> set (findall_entities (is_word c) cs)"
        by (simp add: findall_entities.simps)
      then show ?thesis using "2.IH"(2) [OF False None] by (rule skip)
    next
      case (Some p)
      obtain w r where p: "p = (w, r)" by (cases p)
      obtain m r' where mw: "more_words r = (m, r')" by (cases "more_words r")
      have cwr: "cap_word (c # cs) = Some (w, r)"
        using Some p by simp
      have cw: "capitalized w"
        using cwr by (rule cap_word_capitalized)
      have s: "c # cs = w @ r"
        using cwr by (rule cap_word_append)
      have r: "r = m @ r'" using mw by (rule more_words_append)
      from False Some p mw "2.prems"
      have "e = w @ m \<or> e \<in> set (findall_entities True r')"
        by (simp add: findall_entities.simps)
      then show ?thesis
      proof
        assume e: "e = w @ m"
        obtain rest where rest: "split_acc w m = w # rest" "list_all capitalized rest"
          using more_words_split [OF mw capitalized_nonempty [OF cw]] by blast
        have "split e = split_acc w m"
          using split_acc_word [of w "[]" m] cw capitalized_no_space by (auto simp: split_def e)
        with rest cw have "split e \<noteq> [] \<and> list_all capitalized (split e)" by simp
        moreover have "c # cs = [] @ e @ r'" using s r e by simp
        moreover have "more_words r' = ([], r')" using mw by (rule more_words_stops)
        ultimately show ?thesis using False by (metis (full_types))
      next
        assume mem: "e \<in> set (findall_entities True r')"
        from "2.IH"(3) [OF False Some p [symmetric] mw [symmetric] mem]
        obtain pre post where sh: "split e \<noteq> []" "list_all capitalized (split e)"
          and d: "r' = pre @ e @ post" "if pre = [] then \<not> True else \<not> is_word (last pre)"
            "more_words post = ([], post)"
          by blast
        from d(2) have pn: "pre \<noteq> []" and lw: "\<not> is_word (last pre)"
          by (simp_all split: if_splits)
        have "c # cs = (w @ m @ pre) @ e @ post" using s r d(1) by simp
        moreover have "w @ m @ pre \<noteq> []" using pn by simp
        moreover have "\<not> is_word (last (w @ m @ pre))" using pn lw by simp
        ultimately show ?thesis using sh d(3) by metis
      qed
    qed
  qed
qed

lemma named_entities_shape:
  assumes "e \<in> set (named_entities t)"
  shows "split e \<noteq> [] \<and> list_all capitalized (split e)
         \<and> (\<exists>pre post. t = pre @ e @ post \<and> (pre = [] \<or> \<not> is_word (last pre))
               \<and> more_words post = ([], post))"
proof -
  from findall_entities_shape [of e False t] assms
  obtain pre post where "split e \<noteq> []" "list_all capitalized (split e)"
    "t = pre @ e @ post" "if pre = [] then \<not> False else \<not> is_word (last pre)"
    "more_words post = ([], post)"
    unfolding named_entities_def by blast
  then show ?thesis by (metis (full_types))
qed

lemma upper_is_word: "is_upper c \<Longrightarrow> is_word c"
  by (simp add: is_word_def)

lemma lower_is_word: "is_lower c \<Longrightarrow> is_word c"
  by (simp add: is_word_def)

lemma space_not_word: "is_space c \<Longrightarrow> \<not> is_word c"
  by (auto simp: is_space_def is_word_def is_upper_def is_lower_def is_digit_def Let_def)

lemma chop_Nil: "(chop s = []) = (s = [])"
  by (cases s) (simp_all split: list.splits)

lemma chop_concat: "concat (chop s) = s"
proof (induction s)
  case Nil
  show ?case by simp
next
  case (Cons c cs)
  then show ?case by (cases "chop cs") auto
qed

lemma alt_hd: "alt b (tok # toks) \<Longrightarrow> is_word (hd tok) = b"
  by (cases tok) simp_all

lemma chop_alt: "alt (is_word (hd s)) (chop s)"
proof (induction s)
  case Nil
  show ?case by simp
next
  case (Cons c cs)
  show ?case
  proof (cases "chop cs")
    case Nil
    then show ?thesis by simp
  next
    case (Cons tok toks)
    with Cons.IH have a: "alt (is_word (hd cs)) (tok # toks)" by simp
    then have h: "is_word (hd tok) = is_word (hd cs)" by (rule alt_hd)
    show ?thesis
    proof (cases "is_word c = is_word (hd tok)")
      case True
      with a h Cons show ?thesis by simp
    next
      case False
      with a h Cons show ?thesis by auto
    qed
  qed
qed

lemma alt_ends_word: "alt False toks \<Longrightarrow> ends_word (concat toks)"
proof (cases toks)
  case Nil
  then show ?thesis by (simp add: ends_word_def)
next
  case (Cons g rest)
  assume "alt False toks"
  with Cons have "g \<noteq> []" and "\<not> is_word (hd g)"
    using alt_hd [of False g rest] by simp_all
  with Cons show ?thesis by (cases g) (simp_all add: ends_word_def)
qed

text \<open>Scanning over a separator, and over the rest of a word.\<close>

lemma findall_skip_gap:
  "g \<noteq> [] \<Longrightarrow> list_all (\<lambda>c. \<not> is_word c) g \<Longrightarrow>
     findall_entities pw (g @ s) = findall_entities False s"
proof (induction g arbitrary: pw)
  case Nil
  then show ?case by simp
next
  case (Cons c g)
  from Cons.prems have nw: "\<not> is_word c" and rest: "list_all (\<lambda>c. \<not> is_word c) g"
    by simp_all
  have "cap_word (c # g @ s) = None"
    using nw upper_is_word by auto
  then have step: "findall_entities pw ((c # g) @ s) = findall_entities False (g @ s)"
    using nw by (simp add: findall_entities.simps)
  show ?case
  proof (cases "g = []")
    case True
    with step show ?thesis by simp
  next
    case False
    with step Cons.IH [OF False rest] show ?thesis by simp
  qed
qed

lemma findall_skip_word_rest:
  "list_all is_word w \<Longrightarrow> findall_entities True (w @ s) = findall_entities True s"
  by (induction w) (simp_all add: findall_entities.simps)

lemma findall_skip_word:
  assumes "w \<noteq> []" and "list_all is_word w" and "cap_word (w @ s) = None"
  shows "findall_entities False (w @ s) = findall_entities True s"
proof (cases w)
  case Nil
  with assms(1) show ?thesis by simp
next
  case (Cons c cs)
  with assms(2) have "is_word c" and cs: "list_all is_word cs" by simp_all
  with Cons assms(3) have "findall_entities False (w @ s) = findall_entities True (cs @ s)"
    by (simp add: findall_entities.simps)
  with cs show ?thesis by (simp add: findall_skip_word_rest)
qed

text \<open>A whole word in front of a word boundary matches exactly when it is capitalised.\<close>

lemma takeWhile_lower_word:
  assumes "list_all is_lower cs" and "ends_word s"
  shows "takeWhile is_lower (cs @ s) = cs" and "dropWhile is_lower (cs @ s) = s"
proof -
  have "takeWhile is_lower s = []" and "dropWhile is_lower s = s"
    using assms(2) lower_is_word by (cases s; auto simp: ends_word_def)+
  with assms(1) show "takeWhile is_lower (cs @ s) = cs" and "dropWhile is_lower (cs @ s) = s"
    by (simp_all add: list_all_iff takeWhile_append2 dropWhile_append2)
qed

lemma cap_word_token:
  assumes "w \<noteq> []" and "list_all is_word w" and "ends_word s"
  shows "cap_word (w @ s) = (if capitalized w then Some (w, s) else None)"
proof (cases w)
  case Nil
  with assms(1) show ?thesis by simp
next
  case (Cons c cs)
  from Cons assms(2) have wc: "list_all is_word cs" by simp
  show ?thesis
  proof (cases "capitalized w")
    case True
    with Cons have u: "is_upper c" and n: "cs \<noteq> []" and l: "list_all is_lower cs"
      by (simp_all add: capitalized_def)
    have "ends_word s" by fact
    then have e: "case s of [] \<Rightarrow> True | d # x \<Rightarrow> \<not> is_word d"
      by (simp add: ends_word_def)
    show ?thesis
      using True Cons u n e takeWhile_lower_word [OF l assms(3)] by simp
  next
    case False
    show ?thesis
    proof (cases "is_upper c \<and> cs \<noteq> []")
      case no: False
      have "takeWhile is_lower s = []"
        using assms(3) lower_is_word by (cases s) (auto simp: ends_word_def)
      with no False Cons show ?thesis by auto
    next
      case yes: True
      with False Cons have "\<not> list_all is_lower cs"
        by (simp add: capitalized_def)
      then obtain x where x: "x \<in> set cs" "\<not> is_lower x"
        by (auto simp: list_all_iff)
      then have tw: "takeWhile is_lower (cs @ s) = takeWhile is_lower cs"
        and dw: "dropWhile is_lower (cs @ s) = dropWhile is_lower cs @ s"
        by (simp_all add: takeWhile_append1 dropWhile_append1)
      from x have ne: "dropWhile is_lower cs \<noteq> []"
        by (auto simp: dropWhile_eq_Nil_conv)
      then have "hd (dropWhile is_lower cs) \<in> set cs"
        by (metis hd_in_set set_dropWhileD)
      with wc have "is_word (hd (dropWhile is_lower cs))"
        by (simp add: list_all_iff)
      with ne have "\<not> (case dropWhile is_lower cs @ s of [] \<Rightarrow> True | d # x \<Rightarrow> \<not> is_word d)"
        by (cases "dropWhile is_lower cs") simp_all
      with False Cons tw dw show ?thesis by simp
    qed
  qed
qed

lemma cap_word_nonword: "ends_word s \<Longrightarrow> cap_word s = None"
  using upper_is_word by (cases s) (auto simp: ends_word_def)

lemma more_words_none:
  "takeWhile is_space s = [] \<or> cap_word (dropWhile is_space s) = None \<Longrightarrow>
     more_words s = ([], s)"
  by (auto simp: more_words.simps [of s])

lemma more_words_gap:
  assumes "list_all (\<lambda>c. \<not> is_word c) g" and "\<not> list_all is_space g"
  shows "more_words (g @ s) = ([], g @ s)"
proof -
  from assms(2) obtain x where x: "x \<in> set g" "\<not> is_space x"
    by (auto simp: list_all_iff)
  then have dw: "dropWhile is_space (g @ s) = dropWhile is_space g @ s"
    by (simp add: dropWhile_append1)
  from x have ne: "dropWhile is_space g \<noteq> []"
    by (auto simp: dropWhile_eq_Nil_conv)
  then have "hd (dropWhile is_space g) \<in> set g"
    by (metis hd_in_set set_dropWhileD)
  with assms(1) have "\<not> is_word (hd (dropWhile is_space g))"
    by (simp add: list_all_iff)
  with ne have "ends_word (dropWhile is_space g @ s)"
    by (cases "dropWhile is_space g") (simp_all add: ends_word_def)
  then have "cap_word (dropWhile is_space (g @ s)) = None"
    unfolding dw by (rule cap_word_nonword)
  then show ?thesis by (simp add: more_words_none)
qed

lemma more_words_all_space:
  "list_all is_space g \<Longrightarrow> more_words g = ([], g)"
proof -
  assume "list_all is_space g"
  then have d: "dropWhile is_space g = []"
    by (simp add: list_all_iff)
  show ?thesis
    by (rule more_words_none [OF disjI2]) (simp only: d cap_word.simps)
qed

lemma more_words_tokens:
  "alt False toks \<Longrightarrow> extend_run toks = (m, rest) \<Longrightarrow>
     more_words (concat toks) = (m, concat rest) \<and> alt False rest"
proof (induction toks arbitrary: m rest rule: extend_run.induct)
  case (3 g w toks)
  from "3.prems"(1) have g: "g \<noteq> []" "list_all (\<lambda>c. \<not> is_word c) g"
    and w: "w \<noteq> []" "list_all is_word w" and a: "alt False toks"
    by simp_all
  have e: "ends_word (concat toks)" using a by (rule alt_ends_word)
  show ?case
  proof (cases "spaces g")
    case False
    with g(1) have ns: "\<not> list_all is_space g" by (simp add: spaces_def)
    from False "3.prems"(2) have "m = []" "rest = g # w # toks" by simp_all
    with more_words_gap [OF g(2) ns, of "w @ concat toks"] "3.prems"(1) show ?thesis by simp
  next
    case True
    then have sp: "list_all is_space g" by (simp add: spaces_def)
    have "\<not> is_space (hd w)"
      using w space_not_word by (cases w) auto
    with w(1) sp have tw: "takeWhile is_space (g @ w @ concat toks) = g"
      and dw: "dropWhile is_space (g @ w @ concat toks) = w @ concat toks"
      by (cases w; simp add: list_all_iff takeWhile_append2 dropWhile_append2)+
    have cw: "cap_word (w @ concat toks) = (if capitalized w then Some (w, concat toks) else None)"
      using w e by (rule cap_word_token)
    show ?thesis
    proof (cases "capitalized w")
      case no: False
      with "3.prems"(2) have "m = []" "rest = g # w # toks" by simp_all
      moreover have "more_words (g @ w @ concat toks) = ([], g @ w @ concat toks)"
        using no cw dw by (simp add: more_words_none)
      ultimately show ?thesis using "3.prems"(1) by simp
    next
      case yes: True
      obtain m0 r0 where ex: "extend_run toks = (m0, r0)" by (cases "extend_run toks")
      with True yes "3.prems"(2) have mr: "m = g @ w @ m0" "rest = r0" by simp_all
      from "3.IH" [OF conjI [OF True yes] a ex]
      have ih: "more_words (concat toks) = (m0, concat r0)" "alt False r0" by simp_all
      have "more_words (g @ w @ concat toks) = (g @ w @ m0, concat r0)"
        using g(1) tw dw cw yes ih(1) by (simp add: more_words.simps [of "g @ w @ concat toks"])
      with mr ih(2) show ?thesis by simp
    qed
  qed
next
  case 1
  then show ?case by (simp add: more_words_none)
next
  case (2 v)
  then have g: "list_all (\<lambda>c. \<not> is_word c) v" and mr: "m = []" "rest = [v]" by simp_all
  have "more_words v = ([], v)"
  proof (cases "list_all is_space v")
    case True
    then show ?thesis by (rule more_words_all_space)
  next
    case False
    with more_words_gap [OF g False, of "[]"] show ?thesis by simp
  qed
  with mr "2.prems"(1) show ?case by simp
qed

lemma gap_not_capitalized: "alt False (tok # toks) \<Longrightarrow> \<not> capitalized tok"
  using upper_is_word by (cases tok) (auto simp: capitalized_def)

lemma findall_tokens:
  "alt b toks \<Longrightarrow> (b \<longrightarrow> \<not> pw) \<Longrightarrow> findall_entities pw (concat toks) = runs_from toks"
proof (induction toks arbitrary: b pw rule: runs_from.induct)
  case 1
  show ?case by (simp add: findall_entities.simps)
next
  case (2 tok toks)
  from "2.prems"(1) have tok: "tok \<noteq> []" "list_all (\<lambda>c. is_word c = b) tok"
    and a: "alt (\<not> b) toks"
    by simp_all
  show ?case
  proof (cases b)
    case False
    with "2.prems"(1) have "alt False (tok # toks)" by simp
    then have nc: "\<not> capitalized tok" by (rule gap_not_capitalized)
    from False tok(2) have "list_all (\<lambda>c. \<not> is_word c) tok" by simp
    with tok(1) have "findall_entities pw (tok @ concat toks) = findall_entities False (concat toks)"
      by (rule findall_skip_gap)
    also have "\<dots> = runs_from toks"
      using "2.IH"(2) [OF nc, of "\<not> b" False] a by simp
    finally show ?thesis using nc by simp
  next
    case True
    with "2.prems"(2) have pw: "\<not> pw" by simp
    from True tok(2) have wd: "list_all is_word tok" by simp
    from True a have a': "alt False toks" by simp
    have e: "ends_word (concat toks)" using a' by (rule alt_ends_word)
    have cw: "cap_word (tok @ concat toks)
                = (if capitalized tok then Some (tok, concat toks) else None)"
      using tok(1) wd e by (rule cap_word_token)
    show ?thesis
    proof (cases "capitalized tok")
      case no: False
      with cw have "cap_word (tok @ concat toks) = None" by simp
      with tok(1) wd have "findall_entities False (tok @ concat toks)
                            = findall_entities True (concat toks)"
        by (rule findall_skip_word)
      also have "\<dots> = runs_from toks"
        using "2.IH"(2) [OF no, of False True] a' by simp
      finally show ?thesis using no pw by simp
    next
      case yes: True
      obtain m rest where ex: "extend_run toks = (m, rest)" by (cases "extend_run toks")
      from more_words_tokens [OF a' ex]
      have mw: "more_words (concat toks) = (m, concat rest)" and ar: "alt False rest"
        by simp_all
      obtain c cs where c: "tok = c # cs" using tok(1) by (cases tok) auto
      have "findall_entities False (tok @ concat toks)
              = (tok @ m) # findall_entities True (concat rest)"
        using cw yes mw unfolding c by (simp add: findall_entities.simps)
      also have "findall_entities True (concat rest) = runs_from rest"
        using "2.IH"(1) [OF yes ex [symmetric], of False True] ar by simp
      finally show ?thesis using yes ex pw by simp
    qed
  qed
qed

lemma named_entities_runs: "named_entities t = capitalized_runs t"
  using findall_tokens [OF chop_alt, of t False]
  by (simp add: named_entities_def capitalized_runs_def chop_concat)

text \<open>
  Claim C7, amended. The entities detected in \<open>event.title\<close> are exactly the maximal runs
  of consecutive capitalised words, in their order in the title; each of them stands in the
  title after the start or a character that is no word character, and cannot be extended
  by white space and another capitalised word. The query is joined from the first
  \<open>max_terms\<close> entries of this list: the detected entities whose lower-cased form is no
  stop word and which are not in the term list left by the tag step, taken in order of
  detection up to a budget, each wrapped in quote markers, the one detected last in front,
  followed by the term list of the tag step. The length test follows an insertion, so the
  budget is never less than one entity, also when the tag step has already filled the
  list; when the list has room, the budget is the room that is left.
\<close>

theorem build_news_query_entities:
  "named_entities (event.title ev) = capitalized_runs (event.title ev)
   \<and> build_news_query ev mx =
       join (slice_to (rev (map quoted (take (entity_budget ev mx) (eligible_entities ev mx)))
                       @ tag_terms ev mx) mx)
   \<and> 1 \<le> entity_budget ev mx
   \<and> (int (length (tag_terms ev mx)) < mx \<longrightarrow>
        int (entity_budget ev mx) = mx - int (length (tag_terms ev mx)))
   \<and> (\<forall>e \<in> set (named_entities (event.title ev)).
        split e \<noteq> [] \<and> list_all capitalized (split e)
        \<and> (\<exists>pre post. event.title ev = pre @ e @ post
              \<and> (pre = [] \<or> \<not> is_word (last pre))
              \<and> more_words post = ([], post)))"
proof (intro conjI ballI impI)
  show "named_entities (event.title ev) = capitalized_runs (event.title ev)"
    by (rule named_entities_runs)
  show "build_news_query ev mx =
     join (slice_to (rev (map quoted (take (entity_budget ev mx) (eligible_entities ev mx)))
                     @ tag_terms ev mx) mx)"
    by (simp add: build_news_query_def build_news_terms_closed)
  show "1 \<le> entity_budget ev mx"
    by (simp add: entity_budget_def)
  show "int (entity_budget ev mx) = mx - int (length (tag_terms ev mx))"
    if "int (length (tag_terms ev mx)) < mx"
    using that by (simp add: entity_budget_def)
  fix e
  assume e: "e \<in> set (named_entities (event.title ev))"
  from named_entities_shape [OF e]
  show "split e \<noteq> []" and "list_all capitalized (split e)"
    and "\<exists>pre post. event.title ev = pre @ e @ post
              \<and> (pre = [] \<or> \<not> is_word (last pre))
              \<and> more_words post = ([], post)"
    by blast+
qed

theorem build_news_query_entities_witness:
  "named_entities (event.title musk_event) = [''Elon Musk'', ''Twitter'']
   \<and> build_news_query musk_event 8 =
       quoted ''Twitter'' @ '' '' @ quoted ''Elon Musk'' @ '' elon musk buys twitter''
   \<and> int (entity_budget musk_event 8) = 4
   \<and> named_entities (event.title crowded_event)
       = [''Apple'', ''Google'', ''Amazon'', ''Tesla'', ''Nvidia'']"
proof -
  have r: "capitalized_runs (event.title musk_event) = [''Elon Musk'', ''Twitter'']"
    by code_simp
  have v: "join (slice_to (rev (map quoted (take (entity_budget musk_event 8)
                                            (eligible_entities musk_event 8)))
                           @ tag_terms musk_event 8) 8)
           = quoted ''Twitter'' @ '' '' @ quoted ''Elon Musk'' @ '' elon musk buys twitter''"
    by code_simp
  have l: "int (length (tag_terms musk_event 8)) = 4"
    by code_simp
  have c: "capitalized_runs (event.title crowded_event)
             = [''Apple'', ''Google'', ''Amazon'', ''Tesla'', ''Nvidia'']"
    by code_simp
  from build_news_query_entities [of musk_event 8] build_news_query_entities [of crowded_event 8]
    r v l c
  show ?thesis by simp
qed

text \<open>
  Five title terms and three tags fill the list to \<open>max_terms = 8\<close> before the entity
  step; the entity is inserted all the same, and the cut to eight terms drops the last
  tag.
\<close>

theorem full_list_entity_counterexample:
  "int (length (tag_terms full_event 8)) = 8
   \<and> build_news_terms full_event 8 =
       [quoted ''Elon Musk'', ''elon'', ''musk'', ''buys'', ''twitter'', ''stock'', ''Tech'', ''Crypto'']"
  by code_simp
















end
